theory Spec2Isabelle
  imports Complex_Main "HOL-Library.Multiset" "HOL-Library.Product_Lexorder" "HOL-Library.Log_Nat"
begin

section \<open>The record store (storage.js, class TaskStorage)\<close>

subsection \<open>Tasks\<close>

text \<open>
  A task is the object literal built in \<open>add\<close>. JavaScript strings are modelled as
  \<open>string\<close>, \<open>null\<close> as \<open>None\<close>. Timestamps are the strings that
  \<open>new Date().toISOString()\<close> returns; the clock is an argument of every operation that
  reads it. The field \<open>id\<close> is called \<open>task_id\<close> (\<open>id\<close> is the identity function of HOL).
\<close>

record task =
  task_id :: string
  title :: string
  description :: string
  priority :: string
  category :: string
  dueDate :: "string option"
  completed :: bool
  completedAt :: "string option"
  createdAt :: string
  tags :: "string list"

text \<open>
  The argument of \<open>add\<close>: every property but \<open>title\<close> may be missing
  (\<open>undefined\<close>, here \<open>None\<close>).
\<close>

record taskData =
  d_title :: string
  d_description :: "string option"
  d_priority :: "string option"
  d_category :: "string option"
  d_dueDate :: "string option"
  d_tags :: "string list option"

text \<open>
  The argument of \<open>update\<close>: an object that may carry any property of a task. A property
  that is present (\<open>Some v\<close>) replaces the task's one under the spread
  \<open>{ ...tasks[index], ...updates }\<close>; an absent one (\<open>None\<close>) leaves it. The nullable
  properties can be set to \<open>null\<close>, so they are options of options.
\<close>

record updates =
  u_id :: "string option"
  u_title :: "string option"
  u_description :: "string option"
  u_priority :: "string option"
  u_category :: "string option"
  u_dueDate :: "string option option"
  u_completed :: "bool option"
  u_completedAt :: "string option option"
  u_createdAt :: "string option"
  u_tags :: "string list option"

definition no_updates :: updates where
  "no_updates = \<lparr>u_id = None, u_title = None, u_description = None, u_priority = None,
     u_category = None, u_dueDate = None, u_completed = None, u_completedAt = None,
     u_createdAt = None, u_tags = None\<rparr>"

subsection \<open>The two files\<close>

text \<open>
  \<open>tasks.json\<close> and \<open>tasks.backup.json\<close>. A file is missing, holds something
  \<open>JSON.parse\<close> rejects, or holds the array that \<open>save\<close> wrote.
\<close>

datatype json_file = Missing | Unparseable | Parsed "task list"

record store =
  tasksFile :: json_file
  backupFile :: json_file

definition load :: "store \<Rightarrow> task list" where
  "load s = (case tasksFile s of Parsed ts \<Rightarrow> ts | _ \<Rightarrow> [])"

definition save :: "task list \<Rightarrow> store \<Rightarrow> store" where
  "save tasks s =
     (let backupExists = (tasksFile s \<noteq> Missing);
          s1 = (if backupExists then s\<lparr>backupFile := tasksFile s\<rparr> else s)
      in s1\<lparr>tasksFile := Parsed tasks\<rparr>)"

definition init :: "store \<Rightarrow> store" where
  "init s = (if tasksFile s = Missing then save [] s else s)"

definition getAll :: "store \<Rightarrow> task list" where
  "getAll s = load s"

definition getById :: "store \<Rightarrow> string \<Rightarrow> task option" where
  "getById s i = find (\<lambda>t. task_id t = i) (load s)"

subsection \<open>add, update, delete, toggleComplete, clearCompleted\<close>

text \<open>\<open>x || d\<close> on a string that may be missing: the empty string is falsy as well.\<close>

definition str_or :: "string option \<Rightarrow> string \<Rightarrow> string" where
  "str_or x d = (case x of None \<Rightarrow> d | Some v \<Rightarrow> if v = [] then d else v)"

definition opt_or_null :: "string option \<Rightarrow> string option" where
  "opt_or_null x = (case x of None \<Rightarrow> None | Some v \<Rightarrow> if v = [] then None else Some v)"

text \<open>
  \<open>add\<close> reads two things from outside the program: the identifier that \<open>uuidv4()\<close>
  returns and the clock. Both are arguments here.
\<close>

definition new_task :: "string \<Rightarrow> string \<Rightarrow> taskData \<Rightarrow> task" where
  "new_task uuid now taskData =
     \<lparr>task_id = uuid,
      title = d_title taskData,
      description = str_or (d_description taskData) [],
      priority = str_or (d_priority taskData) ''medium'',
      category = str_or (d_category taskData) ''General'',
      dueDate = opt_or_null (d_dueDate taskData),
      completed = False,
      completedAt = None,
      createdAt = now,
      tags = (case d_tags taskData of None \<Rightarrow> [] | Some ts \<Rightarrow> ts)\<rparr>"

definition add :: "string \<Rightarrow> string \<Rightarrow> taskData \<Rightarrow> store \<Rightarrow> store \<times> task" where
  "add uuid now taskData s =
     (let tasks = load s; t = new_task uuid now taskData
      in (save (tasks @ [t]) s, t))"

definition ov :: "'a option \<Rightarrow> 'a \<Rightarrow> 'a" where
  "ov u v = (case u of None \<Rightarrow> v | Some w \<Rightarrow> w)"

definition spread :: "task \<Rightarrow> updates \<Rightarrow> task" where
  "spread t u =
     \<lparr>task_id = ov (u_id u) (task_id t),
      title = ov (u_title u) (title t),
      description = ov (u_description u) (description t),
      priority = ov (u_priority u) (priority t),
      category = ov (u_category u) (category t),
      dueDate = ov (u_dueDate u) (dueDate t),
      completed = ov (u_completed u) (completed t),
      completedAt = ov (u_completedAt u) (completedAt t),
      createdAt = ov (u_createdAt u) (createdAt t),
      tags = ov (u_tags u) (tags t)\<rparr>"

text \<open>\<open>findIndex\<close>: the first position whose element satisfies the test, or \<open>-1\<close> (\<open>None\<close>).\<close>

fun findIndex :: "('a \<Rightarrow> bool) \<Rightarrow> 'a list \<Rightarrow> nat option" where
  "findIndex P [] = None"
| "findIndex P (x # xs) =
     (if P x then Some 0 else (case findIndex P xs of None \<Rightarrow> None | Some i \<Rightarrow> Some (Suc i)))"

definition update :: "string \<Rightarrow> updates \<Rightarrow> store \<Rightarrow> store \<times> task option" where
  "update i u s =
     (let tasks = load s
      in case findIndex (\<lambda>t. task_id t = i) tasks of
           Some index \<Rightarrow>
             (let tasks' = tasks[index := spread (tasks ! index) u]
              in (save tasks' s, Some (tasks' ! index)))
         | None \<Rightarrow> (s, None))"

definition delete :: "string \<Rightarrow> store \<Rightarrow> store \<times> bool" where
  "delete i s =
     (let tasks = load s; filtered = filter (\<lambda>t. task_id t \<noteq> i) tasks
      in (save filtered s, length filtered < length tasks))"

text \<open>
  \<open>toggleComplete\<close> mutates the first task that \<open>find\<close> returns inside the loaded array
  and saves the array.
\<close>

definition flip :: "string \<Rightarrow> task \<Rightarrow> task" where
  "flip now t =
     (let c = \<not> completed t
      in t\<lparr>completed := c, completedAt := (if c then Some now else None)\<rparr>)"

definition toggleComplete :: "string \<Rightarrow> string \<Rightarrow> store \<Rightarrow> store \<times> task option" where
  "toggleComplete now i s =
     (let tasks = load s
      in case findIndex (\<lambda>t. task_id t = i) tasks of
           Some index \<Rightarrow>
             (let tasks' = tasks[index := flip now (tasks ! index)]
              in (save tasks' s, Some (tasks' ! index)))
         | None \<Rightarrow> (s, None))"

definition clearCompleted :: "store \<Rightarrow> store \<times> nat" where
  "clearCompleted s =
     (let tasks = load s; pending = filter (\<lambda>t. \<not> completed t) tasks
      in (save pending s, length tasks - length pending))"

subsection \<open>A stored collection used in examples\<close>

definition example_task :: "string \<Rightarrow> task" where
  "example_task i =
     \<lparr>task_id = i, title = ''Pay rent'', description = [], priority = ''urgent'',
      category = ''Finance'', dueDate = Some ''2024-03-01'', completed = False,
      completedAt = None, createdAt = ''2024-02-01T09:00:00.000Z'', tags = []\<rparr>"

definition example_store :: store where
  "example_store = \<lparr>tasksFile = Parsed [example_task ''a''], backupFile = Missing\<rparr>"

definition done_task :: task where
  "done_task = (example_task ''a'')\<lparr>completed := True,
     completedAt := Some ''2024-02-10T08:00:00.000Z''\<rparr>"

definition done_store :: store where
  "done_store = \<lparr>tasksFile = Parsed [done_task], backupFile = Missing\<rparr>"

subsection \<open>Sequences of store operations\<close>

text \<open>
  One call of \<open>add\<close>, \<open>update\<close>, \<open>delete\<close> or \<open>toggleComplete\<close>, with what the call
  reads from outside (the identifier from \<open>uuidv4()\<close>, the clock), and a run of such calls
  on the store, in order.
\<close>

datatype op =
    Add string string taskData
  | Update string updates
  | Delete string
  | Toggle string string

fun apply_op :: "op \<Rightarrow> store \<Rightarrow> store" where
  "apply_op (Add uuid now taskData) s = fst (add uuid now taskData s)"
| "apply_op (Update i u) s = fst (update i u s)"
| "apply_op (Delete i) s = fst (delete i s)"
| "apply_op (Toggle now i) s = fst (toggleComplete now i s)"

fun run :: "op list \<Rightarrow> store \<Rightarrow> store" where
  "run [] s = s"
| "run (x # xs) s = run xs (apply_op x s)"

text \<open>The identifiers that the calls of \<open>add\<close> in a run were given, with their clock readings.\<close>

fun new_stamps :: "op list \<Rightarrow> (string \<times> string) list" where
  "new_stamps [] = []"
| "new_stamps (Add uuid now taskData # xs) = (uuid, now) # new_stamps xs"
| "new_stamps (x # xs) = new_stamps xs"

definition new_ids :: "op list \<Rightarrow> string list" where
  "new_ids xs = map fst (new_stamps xs)"

text \<open>A call that passes neither an \<open>id\<close> nor a \<open>createdAt\<close> property to \<open>update\<close>.\<close>

fun keeps_identity :: "op \<Rightarrow> bool" where
  "keeps_identity (Update i u) = (u_id u = None \<and> u_createdAt u = None)"
| "keeps_identity x = True"

definition ids :: "task list \<Rightarrow> string list" where
  "ids ts = map task_id ts"

definition stamps :: "task list \<Rightarrow> (string \<times> string) list" where
  "stamps ts = map (\<lambda>t. (task_id t, createdAt t)) ts"

definition empty_store :: store where
  "empty_store = init \<lparr>tasksFile = Missing, backupFile = Missing\<rparr>"

definition rent :: taskData where
  "rent = \<lparr>d_title = ''Pay rent'', d_description = None, d_priority = Some ''urgent'',
     d_category = Some ''Finance'', d_dueDate = Some ''2024-03-01'', d_tags = None\<rparr>"

definition first_ops :: "op list" where
  "first_ops = [Add ''a'' ''2024-02-01T09:00:00.000Z'' rent]"

definition later_ops :: "op list" where
  "later_ops =
     [Update ''a'' (no_updates\<lparr>u_title := Some ''Pay the rent'', u_dueDate := Some None\<rparr>),
      Toggle ''2024-02-02T09:00:00.000Z'' ''a'',
      Add ''b'' ''2024-02-03T09:00:00.000Z'' rent,
      Delete ''c'']"

definition clash_ops :: "op list" where
  "clash_ops =
     [Add ''a'' ''2024-02-01T09:00:00.000Z'' rent,
      Add ''b'' ''2024-02-03T09:00:00.000Z'' rent,
      Update ''b'' (no_updates\<lparr>u_id := Some ''a'',
        u_createdAt := Some ''2024-02-04T09:00:00.000Z''\<rparr>)]"

section \<open>Sorting (TaskStorage.sort)\<close>

subsection \<open>What the comparator reads from the language\<close>

text \<open>
  JavaScript numbers that arise in the comparator are integers or \<open>NaN\<close>; \<open>NaN\<close> is
  \<open>None\<close>, and a subtraction with a \<open>NaN\<close> or \<open>undefined\<close> operand is \<open>NaN\<close>.
  \<open>new Date(s)\<close> and \<open>localeCompare\<close> belong to the language, not to the program: they
  are parameters. \<open>Date_ms s\<close> is the time value of \<open>new Date(s)\<close> in milliseconds,
  \<open>None\<close> for an invalid date.
\<close>

record builtins =
  Date_ms :: "string \<Rightarrow> int option"
  localeCompare :: "string \<Rightarrow> string \<Rightarrow> int"

definition num_sub :: "int option \<Rightarrow> int option \<Rightarrow> int option" where
  "num_sub x y = (case x of None \<Rightarrow> None | Some a \<Rightarrow> (case y of None \<Rightarrow> None | Some b \<Rightarrow> Some (a - b)))"

text \<open>\<open>priorityOrder[p]\<close>: \<open>undefined\<close> (\<open>None\<close>) for a string that is not one of the four keys.\<close>

definition priorityOrder :: "string \<Rightarrow> int option" where
  "priorityOrder p =
     (if p = ''urgent'' then Some 0
      else if p = ''high'' then Some 1
      else if p = ''medium'' then Some 2
      else if p = ''low'' then Some 3
      else None)"

text \<open>\<open>!a.dueDate\<close>: \<open>null\<close> and the empty string are falsy.\<close>

definition no_due :: "task \<Rightarrow> bool" where
  "no_due a = (case dueDate a of None \<Rightarrow> True | Some d \<Rightarrow> d = [])"

text \<open>\<open>new Date(a.dueDate)\<close>; \<open>new Date(null)\<close> is the epoch.\<close>

definition due_ms :: "builtins \<Rightarrow> task \<Rightarrow> int option" where
  "due_ms env a = (case dueDate a of None \<Rightarrow> Some 0 | Some d \<Rightarrow> Date_ms env d)"

definition comparison :: "builtins \<Rightarrow> string \<Rightarrow> task \<Rightarrow> task \<Rightarrow> int option" where
  "comparison env sortBy a b =
     (if sortBy = ''priority'' then
        num_sub (priorityOrder (priority a)) (priorityOrder (priority b))
      else if sortBy = ''due'' then
        (if no_due a \<and> no_due b then Some 0
         else if no_due a then Some 1
         else if no_due b then Some (- 1)
         else num_sub (due_ms env a) (due_ms env b))
      else if sortBy = ''date'' then
        num_sub (Date_ms env (createdAt a)) (Date_ms env (createdAt b))
      else if sortBy = ''title'' then
        Some (localeCompare env (title a) (title b))
      else Some 0)"

subsection \<open>Array.prototype.sort\<close>

text \<open>
  The language fixes two things about \<open>sort\<close> with a comparator: a result \<open>NaN\<close> of the
  comparator counts as \<open>+0\<close>, and the sort is stable. For a comparator that is a
  consistent ordering this determines the result. The model is the insertion sort that
  puts an element in front of the first later element that does not sort before it. For
  a comparator that is not a consistent ordering (it returns \<open>NaN\<close> for an unknown
  priority or an invalid date) the language leaves the order to the implementation, and
  this insertion sort is one such order, not necessarily the one a given engine produces.
\<close>

definition sortCompare :: "('a \<Rightarrow> 'a \<Rightarrow> int option) \<Rightarrow> 'a \<Rightarrow> 'a \<Rightarrow> int" where
  "sortCompare cmp x y = (case cmp x y of None \<Rightarrow> 0 | Some v \<Rightarrow> v)"

fun insert_sorted :: "('a \<Rightarrow> 'a \<Rightarrow> int option) \<Rightarrow> 'a \<Rightarrow> 'a list \<Rightarrow> 'a list" where
  "insert_sorted cmp x [] = [x]"
| "insert_sorted cmp x (y # ys) =
     (if sortCompare cmp x y \<le> 0 then x # y # ys else y # insert_sorted cmp x ys)"

fun array_sort :: "('a \<Rightarrow> 'a \<Rightarrow> int option) \<Rightarrow> 'a list \<Rightarrow> 'a list" where
  "array_sort cmp [] = []"
| "array_sort cmp (x # xs) = insert_sorted cmp x (array_sort cmp xs)"

subsection \<open>Arrays by reference\<close>

text \<open>
  \<open>sort\<close> and \<open>reverse\<close> work in place, and \<open>TaskStorage.sort\<close> runs them on the copy
  \<open>[...tasks]\<close>. The heap is the list of the arrays allocated so far; a reference is a
  position in it.
\<close>

type_synonym heap = "task list list"

definition alloc :: "task list \<Rightarrow> heap \<Rightarrow> heap \<times> nat" where
  "alloc xs h = (h @ [xs], length h)"

definition sort_in_place :: "(task \<Rightarrow> task \<Rightarrow> int option) \<Rightarrow> nat \<Rightarrow> heap \<Rightarrow> heap" where
  "sort_in_place cmp r h = h[r := array_sort cmp (h ! r)]"

definition reverse_in_place :: "nat \<Rightarrow> heap \<Rightarrow> heap" where
  "reverse_in_place r h = h[r := rev (h ! r)]"

definition sort_tasks :: "builtins \<Rightarrow> nat \<Rightarrow> string \<Rightarrow> bool \<Rightarrow> heap \<Rightarrow> heap \<times> nat" where
  "sort_tasks env tasks sortBy reverse h =
     (let (h1, copy) = alloc (h ! tasks) h;
          h2 = sort_in_place (comparison env sortBy) copy h1;
          sorted = copy
      in if reverse then (reverse_in_place sorted h2, sorted) else (h2, sorted))"

subsection \<open>Measures used to state the order\<close>

definition by_priority :: "string \<Rightarrow> task list \<Rightarrow> task list" where
  "by_priority p xs = filter (\<lambda>t. priority t = p) xs"

definition has_due :: "task \<Rightarrow> bool" where
  "has_due t = (\<not> no_due t)"

definition priority_rank :: "task \<Rightarrow> int" where
  "priority_rank t = (case priorityOrder (priority t) of Some n \<Rightarrow> n | None \<Rightarrow> 4)"

definition known_priority :: "task \<Rightarrow> bool" where
  "known_priority t = (priorityOrder (priority t) \<noteq> None)"

definition due_date_ok :: "builtins \<Rightarrow> task \<Rightarrow> bool" where
  "due_date_ok env t = (if no_due t then True else due_ms env t \<noteq> None)"

definition due_value :: "builtins \<Rightarrow> task \<Rightarrow> int" where
  "due_value env t = (case due_ms env t of Some v \<Rightarrow> v | None \<Rightarrow> 0)"

definition due_key :: "builtins \<Rightarrow> task \<Rightarrow> bool \<times> int" where
  "due_key env t = (if no_due t then (True, 0) else (False, due_value env t))"

subsection \<open>Tasks and builtins used in examples\<close>

text \<open>
  A comparison of strings by code unit, to fill the \<open>localeCompare\<close> parameter in the
  examples; it is not the collation of \<open>localeCompare\<close>, and no example sorts by title.
\<close>

fun ascii_compare :: "string \<Rightarrow> string \<Rightarrow> int" where
  "ascii_compare [] [] = 0"
| "ascii_compare [] (y # ys) = - 1"
| "ascii_compare (x # xs) [] = 1"
| "ascii_compare (x # xs) (y # ys) =
     (if (of_char x :: nat) < of_char y then - 1
      else if (of_char y :: nat) < of_char x then 1
      else ascii_compare xs ys)"

text \<open>
  The time values of three dates (UTC midnight, in milliseconds), as \<open>new Date\<close> gives
  them; everything else is taken as an invalid date.
\<close>

definition example_env :: builtins where
  "example_env =
     \<lparr>Date_ms = (\<lambda>s. if s = ''2024-01-15'' then Some 1705276800000
                      else if s = ''2024-02-10'' then Some 1707523200000
                      else if s = ''2024-03-01'' then Some 1709251200000
                      else None),
      localeCompare = ascii_compare\<rparr>"

definition mk_task :: "string \<Rightarrow> string \<Rightarrow> string option \<Rightarrow> task" where
  "mk_task i p d =
     \<lparr>task_id = i, title = ''Task'', description = [], priority = p, category = ''General'',
      dueDate = d, completed = False, completedAt = None,
      createdAt = ''2024-01-01T00:00:00.000Z'', tags = []\<rparr>"

definition example_tasks :: "task list" where
  "example_tasks =
     [mk_task ''1'' ''low'' (Some ''2024-03-01''),
      mk_task ''2'' ''urgent'' None,
      mk_task ''3'' ''high'' (Some ''2024-01-15''),
      mk_task ''4'' ''urgent'' (Some ''2024-02-10''),
      mk_task ''5'' ''low'' None]"

definition due_pair :: "task list" where
  "due_pair = [mk_task ''1'' ''low'' (Some ''2024-03-01''), mk_task ''2'' ''urgent'' None]"

definition bogus_tasks :: "task list" where
  "bogus_tasks =
     [mk_task ''1'' ''low'' None, mk_task ''2'' ''bogus'' None, mk_task ''3'' ''urgent'' None]"

section \<open>The prompts (index.js)\<close>

subsection \<open>The input stream\<close>

text \<open>
  A \<open>keypress\<close> event carries a character \<open>ch\<close> and a key object, either of which may
  be \<open>undefined\<close>. The handlers read only \<open>key.name\<close>, so the key object is its name.
  The input stream is \<open>process.stdin\<close>: whether it is a terminal, the events that will
  arrive, in order, and whether it is in raw mode. A prompt that is still waiting when the
  events are used up has not resolved: its result is \<open>None\<close>. Drawing is not modelled.
\<close>

record event =
  ch :: "string option"
  key :: "string option"

record stdin =
  isTTY :: bool
  events :: "event list"
  rawMode :: bool

definition isInteractive :: "stdin \<Rightarrow> bool" where
  "isInteractive s = (isTTY s = True)"

text \<open>
  \<open>setRawMode\<close> exists on a terminal only; elsewhere the call throws, inside
  \<open>try { } catch (e) {}\<close>.
\<close>

definition setRawMode :: "bool \<Rightarrow> stdin \<Rightarrow> stdin" where
  "setRawMode b s = (if isTTY s then s\<lparr>rawMode := b\<rparr> else s)"

definition resetStdin :: "stdin \<Rightarrow> stdin" where
  "resetStdin s = setRawMode False s"

subsection \<open>showMenu\<close>

record menu_result =
  index :: int
  ok :: bool

text \<open>
  \<open>onKey\<close> of \<open>showMenu\<close>: the new value of \<open>selected\<close>, and the value the promise is
  resolved with, if it is.
\<close>

definition showMenu_onKey :: "string list \<Rightarrow> int \<Rightarrow> event \<Rightarrow> int \<times> menu_result option" where
  "showMenu_onKey options selected e =
     (case key e of
        None \<Rightarrow> (selected, None)
      | Some name \<Rightarrow>
          if name = ''up'' then (max 0 (selected - 1), None)
          else if name = ''down'' then (min (int (length options) - 1) (selected + 1), None)
          else if name = ''return'' then (selected, Some \<lparr>index = selected, ok = True\<rparr>)
          else if name = ''escape'' then (selected, Some \<lparr>index = selected, ok = False\<rparr>)
          else (selected, None))"

text \<open>
  The events are handed to \<open>onKey\<close> one by one until it resolves the promise;
  \<open>resetStdin\<close> then removes the listener, and the events that follow stay in the stream.
\<close>

fun showMenu_keys :: "string list \<Rightarrow> int \<Rightarrow> event list \<Rightarrow> menu_result option \<times> event list" where
  "showMenu_keys options selected [] = (None, [])"
| "showMenu_keys options selected (e # es) =
     (case showMenu_onKey options selected e of
        (selected', Some r) \<Rightarrow> (Some r, es)
      | (selected', None) \<Rightarrow> showMenu_keys options selected' es)"

definition showMenu :: "string list \<Rightarrow> stdin \<Rightarrow> menu_result option \<times> stdin" where
  "showMenu options s =
     (if \<not> isInteractive s then (Some \<lparr>index = 0, ok = True\<rparr>, s)
      else
        (case showMenu_keys options 0 (events (setRawMode True s)) of
           (Some r, rest) \<Rightarrow> (Some r, resetStdin ((setRawMode True s)\<lparr>events := rest\<rparr>))
         | (None, rest) \<Rightarrow> (None, (setRawMode True s)\<lparr>events := rest\<rparr>)))"

subsection \<open>multiSelect\<close>

record multi_result =
  indexes :: "int list"
  accepted :: bool

text \<open>
  The \<open>Set\<close> named \<open>selected\<close> is the list of its elements in insertion order, which is
  the order \<open>Array.from\<close> reads them in: \<open>add\<close> of a new element appends it, \<open>delete\<close>
  removes it. The field \<open>ok\<close> of the result is called \<open>accepted\<close> here.
\<close>

definition toggle :: "int \<Rightarrow> int list \<Rightarrow> int list" where
  "toggle current selected =
     (if current \<in> set selected then filter (\<lambda>i. i \<noteq> current) selected
      else selected @ [current])"

definition multiSelect_onKey ::
    "string list \<Rightarrow> int list \<times> int \<Rightarrow> event \<Rightarrow> (int list \<times> int) \<times> multi_result option" where
  "multiSelect_onKey options st e =
     (let selected = fst st; current = snd st in
      case key e of
        None \<Rightarrow> (st, None)
      | Some name \<Rightarrow>
          if name = ''up'' then ((selected, max 0 (current - 1)), None)
          else if name = ''down'' then
            ((selected, min (int (length options) - 1) (current + 1)), None)
          else if ch e = Some '' '' then ((toggle current selected, current), None)
          else if name = ''return'' then (st, Some \<lparr>indexes = selected, accepted = True\<rparr>)
          else if name = ''escape'' then (st, Some \<lparr>indexes = [], accepted = False\<rparr>)
          else (st, None))"

fun multiSelect_keys ::
    "string list \<Rightarrow> int list \<times> int \<Rightarrow> event list \<Rightarrow> multi_result option \<times> event list" where
  "multiSelect_keys options st [] = (None, [])"
| "multiSelect_keys options st (e # es) =
     (case multiSelect_onKey options st e of
        (st', Some r) \<Rightarrow> (Some r, es)
      | (st', None) \<Rightarrow> multiSelect_keys options st' es)"

definition multiSelect :: "string list \<Rightarrow> stdin \<Rightarrow> multi_result option \<times> stdin" where
  "multiSelect options s =
     (if \<not> isInteractive s then (Some \<lparr>indexes = [0], accepted = True\<rparr>, s)
      else
        (case multiSelect_keys options ([], 0) (events (setRawMode True s)) of
           (Some r, rest) \<Rightarrow> (Some r, resetStdin ((setRawMode True s)\<lparr>events := rest\<rparr>))
         | (None, rest) \<Rightarrow> (None, (setRawMode True s)\<lparr>events := rest\<rparr>)))"

subsection \<open>confirm\<close>

definition confirm_onKey :: "string list \<Rightarrow> int \<Rightarrow> event \<Rightarrow> int \<times> menu_result option" where
  "confirm_onKey opts selected e =
     (case key e of
        None \<Rightarrow> (selected, None)
      | Some name \<Rightarrow>
          if name = ''up'' then (max 0 (selected - 1), None)
          else if name = ''down'' then (min (int (length opts) - 1) (selected + 1), None)
          else if name = ''return'' then
            (selected, Some \<lparr>index = selected, ok = (selected = 0)\<rparr>)
          else (selected, None))"

fun confirm_keys :: "string list \<Rightarrow> int \<Rightarrow> event list \<Rightarrow> menu_result option \<times> event list" where
  "confirm_keys opts selected [] = (None, [])"
| "confirm_keys opts selected (e # es) =
     (case confirm_onKey opts selected e of
        (selected', Some r) \<Rightarrow> (Some r, es)
      | (selected', None) \<Rightarrow> confirm_keys opts selected' es)"

definition confirm :: "string list \<Rightarrow> stdin \<Rightarrow> menu_result option \<times> stdin" where
  "confirm opts s =
     (if \<not> isInteractive s then (Some \<lparr>index = 0, ok = True\<rparr>, s)
      else
        (case confirm_keys opts 0 (events (setRawMode True s)) of
           (Some r, rest) \<Rightarrow> (Some r, resetStdin ((setRawMode True s)\<lparr>events := rest\<rparr>))
         | (None, rest) \<Rightarrow> (None, (setRawMode True s)\<lparr>events := rest\<rparr>)))"

subsection \<open>waitForKey\<close>

text \<open>
  \<open>waitForKey\<close> does not call \<open>isInteractive\<close>: it installs its listener whatever the
  stream is, and the first event of any kind resolves it.
\<close>

definition waitForKey :: "stdin \<Rightarrow> unit option \<times> stdin" where
  "waitForKey s =
     (case events (setRawMode True s) of
        [] \<Rightarrow> (None, setRawMode True s)
      | e # es \<Rightarrow> (Some (), resetStdin ((setRawMode True s)\<lparr>events := es\<rparr>)))"

subsection \<open>Keys and streams used in examples\<close>

definition up :: event where
  "up = \<lparr>ch = None, key = Some ''up''\<rparr>"

definition down :: event where
  "down = \<lparr>ch = None, key = Some ''down''\<rparr>"

definition return_key :: event where
  "return_key = \<lparr>ch = Some [CHR 0x0D], key = Some ''return''\<rparr>"


definition space :: event where
  "space = \<lparr>ch = Some '' '', key = Some ''space''\<rparr>"


definition terminal :: "event list \<Rightarrow> stdin" where
  "terminal es = \<lparr>isTTY = True, events = es, rawMode = False\<rparr>"

definition piped :: "event list \<Rightarrow> stdin" where
  "piped es = \<lparr>isTTY = False, events = es, rawMode = False\<rparr>"

subsection \<open>The order of the selection, in the words of the specification\<close>

text \<open>
  \<open>toggle_trace\<close> reads a run of events as a user does: it follows the cursor and writes
  down the option it is on each time the space key is pressed, up to the key that ends the
  prompt. \<open>most_recently_on\<close> is what such a record says the selection is: an option is
  selected when it was pressed an odd number of times (each press switches it), and the
  selected options are listed in the order of their last press, which for a selected
  option is the press that switched it on most recently (\<open>remdups\<close> keeps the last
  occurrence of each element).
\<close>

fun toggle_trace :: "string list \<Rightarrow> int \<Rightarrow> event list \<Rightarrow> int list" where
  "toggle_trace options current [] = []"
| "toggle_trace options current (e # es) =
     (case key e of
        None \<Rightarrow> toggle_trace options current es
      | Some name \<Rightarrow>
          if name = ''up'' then toggle_trace options (max 0 (current - 1)) es
          else if name = ''down'' then
            toggle_trace options (min (int (length options) - 1) (current + 1)) es
          else if ch e = Some '' '' then current # toggle_trace options current es
          else if name = ''return'' \<or> name = ''escape'' then []
          else toggle_trace options current es)"

definition most_recently_on :: "int list \<Rightarrow> int list" where
  "most_recently_on presses = filter (\<lambda>i. odd (count_list presses i)) (remdups presses)"

section \<open>Statistics (TaskStorage.getStats)\<close>

subsection \<open>JavaScript numbers\<close>

text \<open>
  A JavaScript number is an IEEE 754 double, and \<open>x / y\<close> and \<open>x * y\<close> are the exact
  quotient and product rounded to the nearest double, ties to the even significand. A
  double other than 0 is \<open>m * 2 ^ e\<close> with an integer \<open>m\<close> of 53 bits. The values that
  \<open>getStats\<close> computes lie between \<open>2 ^ (-32)\<close> and 100 (array lengths are below
  \<open>2 ^ 32\<close>), far from overflow and from the subnormal range, so the exponent is not
  bounded here. Numbers are modelled by the rationals they denote.
\<close>

definition pow2 :: "int \<Rightarrow> rat" where
  "pow2 e = (if 0 \<le> e then 2 ^ nat e else 1 / 2 ^ nat (- e))"

text \<open>The \<open>e\<close> with \<open>2 ^ e \<le> q < 2 ^ (e + 1)\<close>, for \<open>q > 0\<close>.\<close>

definition floor_log2 :: "rat \<Rightarrow> int" where
  "floor_log2 q =
     (let b = bitlen (fst (quotient_of q)) - bitlen (snd (quotient_of q))
      in if pow2 b \<le> q then b else b - 1)"

definition round_half_even :: "rat \<Rightarrow> int" where
  "round_half_even q =
     (let f = \<lfloor>q\<rfloor>; r = q - of_int f
      in if r < 1 / 2 then f else if 1 / 2 < r then f + 1 else if even f then f else f + 1)"

definition to_double :: "rat \<Rightarrow> rat" where
  "to_double q =
     (if q = 0 then 0
      else
        (let a = \<bar>q\<bar>; e = floor_log2 a - 52; m = round_half_even (a / pow2 e)
         in (if q < 0 then - 1 else 1) * of_int m * pow2 e))"

definition js_div :: "rat \<Rightarrow> rat \<Rightarrow> rat" where
  "js_div x y = to_double (x / y)"

definition js_mul :: "rat \<Rightarrow> rat \<Rightarrow> rat" where
  "js_mul x y = to_double (x * y)"

text \<open>\<open>Math.round\<close>: the nearest integer, a tie going up.\<close>

definition Math_round :: "rat \<Rightarrow> int" where
  "Math_round x = \<lfloor>x + 1 / 2\<rfloor>"

subsection \<open>getStats\<close>

record priority_counts =
  n_urgent :: nat
  n_high :: nat
  n_medium :: nat
  n_low :: nat

text \<open>
  The fields of the result are \<open>total\<close>, \<open>completed\<close>, \<open>pending\<close>, \<open>completionRate\<close>,
  \<open>byPriority\<close> and \<open>categories\<close>; they carry the prefix \<open>st_\<close> here (\<open>completed\<close> is a
  field of a task). \<open>categories\<close> is an object used as a dictionary: the list of its
  keys with their counts, in insertion order. This is the object for category names that
  are neither integer-like (such keys come first in an object) nor names of properties
  that every object inherits (\<open>__proto__\<close>, \<open>constructor\<close> and the like, for which
  \<open>categories[c] || 0\<close> is not a count).
\<close>

record stats =
  st_total :: nat
  st_completed :: nat
  st_pending :: nat
  st_completionRate :: int
  st_byPriority :: priority_counts
  st_categories :: "(string \<times> nat) list"

text \<open>\<open>categories[c] = (categories[c] || 0) + 1\<close>\<close>

fun count_category :: "string \<Rightarrow> (string \<times> nat) list \<Rightarrow> (string \<times> nat) list" where
  "count_category c [] = [(c, 1)]"
| "count_category c ((k, n) # kvs) =
     (if k = c then (k, n + 1) # kvs else (k, n) # count_category c kvs)"

definition completionRate :: "nat \<Rightarrow> nat \<Rightarrow> int" where
  "completionRate completed_n total_n =
     (if total_n > 0 then Math_round (js_mul (js_div (of_nat completed_n) (of_nat total_n)) 100)
      else 0)"

definition getStats :: "store \<Rightarrow> stats" where
  "getStats s =
     (let tasks = load s;
          total = length tasks;
          completed_n = length (filter completed tasks);
          pending = total - completed_n;
          byPriority =
            \<lparr>n_urgent = length (filter (\<lambda>t. priority t = ''urgent'') tasks),
             n_high = length (filter (\<lambda>t. priority t = ''high'') tasks),
             n_medium = length (filter (\<lambda>t. priority t = ''medium'') tasks),
             n_low = length (filter (\<lambda>t. priority t = ''low'') tasks)\<rparr>;
          categories = fold (\<lambda>t cs. count_category (category t) cs) tasks []
      in \<lparr>st_total = total,
          st_completed = completed_n,
          st_pending = pending,
          st_completionRate = completionRate completed_n total,
          st_byPriority = byPriority,
          st_categories = categories\<rparr>)"

subsection \<open>A collection of forty tasks, twenty-three of them completed\<close>

fun decimal :: "nat \<Rightarrow> string" where
  "decimal n =
     (if n < 10 then [char_of (48 + n)] else decimal (n div 10) @ [char_of (48 + n mod 10)])"

definition numbered_task :: "nat \<Rightarrow> task" where
  "numbered_task n =
     \<lparr>task_id = decimal n, title = ''Task'', description = [], priority = ''medium'',
      category = ''General'', dueDate = None, completed = (n < 23),
      completedAt = (if n < 23 then Some ''2024-02-10T08:00:00.000Z'' else None),
      createdAt = ''2024-01-01T00:00:00.000Z'', tags = []\<rparr>"

definition forty_tasks :: store where
  "forty_tasks = \<lparr>tasksFile = Parsed (map numbered_task [0..<40]), backupFile = Missing\<rparr>"

section \<open>Facts about the store\<close>

lemma load_save: "load (save ts s) = ts"
  by (simp add: load_def save_def Let_def)

lemma findIndex_None: "findIndex P xs = None \<longleftrightarrow> (\<forall>x \<in> set xs. \<not> P x)"
  by (induction xs) (auto split: option.splits)

lemma findIndex_Some:
  "findIndex P xs = Some i \<Longrightarrow> i < length xs \<and> P (xs ! i) \<and> (\<forall>j < i. \<not> P (xs ! j))"
proof (induction xs arbitrary: i)
  case Nil
  then show ?case by simp
next
  case (Cons x xs)
  show ?case
  proof (cases "P x")
    case True
    with Cons.prems show ?thesis by simp
  next
    case False
    with Cons.prems obtain k where k: "findIndex P xs = Some k" "i = Suc k"
      by (auto split: option.splits)
    from Cons.IH [OF k(1)] False k(2) show ?thesis
      by (auto simp: less_Suc_eq_0_disj)
  qed
qed

lemma length_filter_split:
  "length (filter P xs) + length (filter (\<lambda>x. \<not> P x) xs) = length xs"
  by (induction xs) auto

subsection \<open>clearCompleted\<close>

text \<open>
  C8. \<open>clearCompleted\<close> leaves no completed task in the collection, keeps the pending tasks
  in their order, returns the number of completed tasks (which is the number of tasks that
  went away), and called again at once it returns 0 and leaves the collection as it is.
\<close>

theorem clearCompleted_exact:
  "filter completed (load (fst (clearCompleted s))) = []
   \<and> load (fst (clearCompleted s)) = filter (\<lambda>t. \<not> completed t) (load s)
   \<and> snd (clearCompleted s) = length (filter completed (load s))
   \<and> snd (clearCompleted s) + length (load (fst (clearCompleted s))) = length (load s)
   \<and> snd (clearCompleted (fst (clearCompleted s))) = 0
   \<and> load (fst (clearCompleted (fst (clearCompleted s)))) = load (fst (clearCompleted s))"
proof -
  let ?ts = "load s"
  let ?p = "filter (\<lambda>t. \<not> completed t) ?ts"
  have l: "load (fst (clearCompleted s)) = ?p"
    by (simp add: clearCompleted_def Let_def load_save)
  have n: "snd (clearCompleted s) = length ?ts - length ?p"
    by (simp add: clearCompleted_def Let_def)
  have c: "length ?ts - length ?p = length (filter completed ?ts)"
    using length_filter_split [of completed ?ts] by simp
  have again: "filter (\<lambda>t. \<not> completed t) ?p = ?p"
    by simp
  have l2: "load (fst (clearCompleted (fst (clearCompleted s)))) = ?p"
    by (simp add: clearCompleted_def [of "fst (clearCompleted s)"] Let_def load_save l)
  have n2: "snd (clearCompleted (fst (clearCompleted s))) = 0"
    by (simp add: clearCompleted_def [of "fst (clearCompleted s)"] Let_def l)
  have none: "filter completed ?p = []"
    by (induction ?ts) auto
  have sum: "length (filter completed ?ts) + length ?p = length ?ts"
    using length_filter_split [of completed ?ts] by simp
  show ?thesis
    using l n c l2 n2 none sum by simp
qed

subsection \<open>Identifiers that are not in the collection\<close>

lemma findIndex_absent: "i \<notin> task_id ` set ts \<Longrightarrow> findIndex (\<lambda>t. task_id t = i) ts = None"
  by (auto simp: findIndex_None)

lemma filter_absent: "i \<notin> task_id ` set ts \<Longrightarrow> filter (\<lambda>t. task_id t \<noteq> i) ts = ts"
  by (induction ts) auto

text \<open>
  C9. For an identifier that no stored task has, \<open>update\<close> returns \<open>null\<close> and
  \<open>toggleComplete\<close> returns \<open>null\<close>, both without writing anything; \<open>delete\<close> returns
  \<open>false\<close> and the collection it saves is the one it loaded.
\<close>

theorem not_found_unchanged:
  assumes "i \<notin> task_id ` set (load s)"
  shows "update i u s = (s, None)
     \<and> snd (delete i s) = False \<and> load (fst (delete i s)) = load s
     \<and> toggleComplete now i s = (s, None)"
proof -
  have f: "findIndex (\<lambda>t. task_id t = i) (load s) = None"
    using assms by (rule findIndex_absent)
  have d: "filter (\<lambda>t. task_id t \<noteq> i) (load s) = load s"
    using assms by (rule filter_absent)
  have 1: "update i u s = (s, None)"
    by (simp add: update_def f)
  have 2: "snd (delete i s) = False"
    by (simp add: delete_def Let_def d)
  have 3: "load (fst (delete i s)) = load s"
    by (simp add: delete_def Let_def d load_save)
  have 4: "toggleComplete now i s = (s, None)"
    by (simp add: toggleComplete_def f)
  from 1 2 3 4 show ?thesis by simp
qed

theorem not_found_unchanged_witness:
  "''b'' \<notin> task_id ` set (load example_store)
   \<and> update ''b'' (no_updates\<lparr>u_title := Some ''x''\<rparr>) example_store = (example_store, None)
   \<and> snd (delete ''b'' example_store) = False
   \<and> load (fst (delete ''b'' example_store)) = load example_store
   \<and> toggleComplete ''2024-02-02T09:00:00.000Z'' ''b'' example_store = (example_store, None)"
proof -
  have h: "''b'' \<notin> task_id ` set (load example_store)"
    by (simp add: example_store_def example_task_def load_def)
  from not_found_unchanged [OF h] h show ?thesis
    by blast
qed

subsection \<open>toggleComplete, twice\<close>

lemma find_findIndex:
  "findIndex P xs = Some k \<Longrightarrow> find P xs = Some (xs ! k)"
proof (induction xs arbitrary: k)
  case Nil
  then show ?case by simp
next
  case (Cons x xs)
  then show ?case by (auto split: if_splits option.splits)
qed

lemma find_findIndex_None: "findIndex P xs = None \<Longrightarrow> find P xs = None"
  by (induction xs) (auto split: if_splits option.splits)

lemma findIndex_update:
  "findIndex P xs = Some k \<Longrightarrow> P y \<Longrightarrow> findIndex P (xs[k := y]) = Some k"
proof (induction xs arbitrary: k)
  case Nil
  then show ?case by simp
next
  case (Cons x xs)
  then show ?case by (cases k) (auto split: if_splits option.splits)
qed

lemma findIndex_of_find:
  "find P xs = Some t \<Longrightarrow> \<exists>k. findIndex P xs = Some k \<and> xs ! k = t \<and> k < length xs"
proof (induction xs)
  case Nil
  then show ?case by simp
next
  case (Cons x xs)
  then show ?case by (auto split: if_splits)
qed

lemma toggle_found:
  assumes "findIndex (\<lambda>t. task_id t = i) (load s) = Some k"
  shows "load (fst (toggleComplete now i s)) = (load s)[k := flip now (load s ! k)]"
  using assms by (simp add: toggleComplete_def Let_def load_save)

lemma task_id_flip: "task_id (flip now t) = task_id t"
  by (simp add: flip_def Let_def)

lemma flip_flip:
  "flip n2 (flip n1 t) = t\<lparr>completedAt := (if completed t then Some n2 else None)\<rparr>"
  by (simp add: flip_def Let_def)

lemma two_toggles_load:
  assumes "getById s i = Some t"
  shows "\<exists>k. k < length (load s) \<and> load s ! k = t
     \<and> findIndex (\<lambda>t. task_id t = i)
           (load (fst (toggleComplete n2 i (fst (toggleComplete n1 i s))))) = Some k
     \<and> load (fst (toggleComplete n2 i (fst (toggleComplete n1 i s))))
         = (load s)[k := t\<lparr>completedAt := (if completed t then Some n2 else None)\<rparr>]"
proof -
  let ?P = "\<lambda>t. task_id t = i"
  let ?s1 = "fst (toggleComplete n1 i s)"
  let ?s2 = "fst (toggleComplete n2 i ?s1)"
  from assms obtain k where k: "findIndex ?P (load s) = Some k" "load s ! k = t" "k < length (load s)"
    using findIndex_of_find [of ?P "load s" t] by (auto simp: getById_def)
  from findIndex_Some [OF k(1)] have id_t: "task_id t = i"
    using k(2) by simp
  have l1: "load ?s1 = (load s)[k := flip n1 t]"
    using toggle_found [OF k(1)] k(2) by simp
  have k1: "findIndex ?P (load ?s1) = Some k"
    unfolding l1 using k(1) by (rule findIndex_update) (simp add: task_id_flip id_t)
  have at1: "load ?s1 ! k = flip n1 t"
    using k(3) by (simp add: l1)
  have l2: "load ?s2 = (load s)[k := flip n2 (flip n1 t)]"
    using toggle_found [OF k1] at1 by (simp add: l1)
  have k2: "findIndex ?P (load ?s2) = Some k"
    unfolding l2 using k(1) by (rule findIndex_update) (simp add: task_id_flip id_t)
  have "flip n2 (flip n1 t) = t\<lparr>completedAt := (if completed t then Some n2 else None)\<rparr>"
    by (rule flip_flip)
  with k(2,3) k2 l2 show ?thesis
    by simp
qed

lemma two_toggles_get:
  assumes "getById s i = Some t"
  shows "getById (fst (toggleComplete n2 i (fst (toggleComplete n1 i s)))) i
           = Some (t\<lparr>completedAt := (if completed t then Some n2 else None)\<rparr>)"
proof -
  let ?s2 = "fst (toggleComplete n2 i (fst (toggleComplete n1 i s)))"
  let ?t' = "t\<lparr>completedAt := (if completed t then Some n2 else None)\<rparr>"
  from two_toggles_load [OF assms, of n2 n1] obtain k where
    k: "k < length (load s)" "findIndex (\<lambda>t. task_id t = i) (load ?s2) = Some k"
       "load ?s2 = (load s)[k := ?t']"
    by blast
  have "getById ?s2 i = Some (load ?s2 ! k)"
    unfolding getById_def using k(2) by (rule find_findIndex)
  also have "load ?s2 ! k = ?t'"
    using k(1) by (simp add: k(3))
  finally show ?thesis .
qed

text \<open>
  C3 (as amended). For an identifier that a stored task has, two calls of
  \<open>toggleComplete\<close> in a row leave every field of that task as it was except
  \<open>completedAt\<close>: a task that was completed ends completed with \<open>completedAt\<close> set to the
  clock reading of the second call, not to its original value; a pending task ends with
  \<open>completedAt\<close> null, and if it started pending with \<open>completedAt\<close> null (as \<open>add\<close>
  creates it) the whole collection is as it was.
\<close>

theorem toggle_twice:
  assumes "getById s i = Some t"
  shows "getById (fst (toggleComplete n2 i (fst (toggleComplete n1 i s)))) i
           = Some (t\<lparr>completedAt := (if completed t then Some n2 else None)\<rparr>)
     \<and> (\<not> completed t \<and> completedAt t = None \<longrightarrow>
           load (fst (toggleComplete n2 i (fst (toggleComplete n1 i s)))) = load s)"
proof -
  let ?s2 = "fst (toggleComplete n2 i (fst (toggleComplete n1 i s)))"
  let ?t' = "t\<lparr>completedAt := (if completed t then Some n2 else None)\<rparr>"
  from two_toggles_load [OF assms, of n2 n1] obtain k where
    k: "k < length (load s)" "load s ! k = t" "load ?s2 = (load s)[k := ?t']"
    by blast
  have same: "load ?s2 = load s" if "\<not> completed t" "completedAt t = None"
  proof -
    have "?t' = t"
      using that by simp
    then show ?thesis
      using k list_update_id [of "load s" k] by simp
  qed
  from two_toggles_get [OF assms] same show ?thesis
    by blast
qed

theorem toggle_twice_witness:
  "getById example_store ''a'' = Some (example_task ''a'')
   \<and> getById (fst (toggleComplete ''2024-02-03T09:00:00.000Z'' ''a''
        (fst (toggleComplete ''2024-02-02T09:00:00.000Z'' ''a'' example_store)))) ''a''
       = Some (example_task ''a'')
   \<and> load (fst (toggleComplete ''2024-02-03T09:00:00.000Z'' ''a''
        (fst (toggleComplete ''2024-02-02T09:00:00.000Z'' ''a'' example_store))))
       = load example_store"
proof -
  have h: "getById example_store ''a'' = Some (example_task ''a'')"
    by (simp add: getById_def example_store_def load_def example_task_def)
  have p: "\<not> completed (example_task ''a'') \<and> completedAt (example_task ''a'') = None"
    by (simp add: example_task_def)
  from toggle_twice [OF h, of "''2024-02-03T09:00:00.000Z''" "''2024-02-02T09:00:00.000Z''"] h p
  show ?thesis by (simp add: example_task_def)
qed

text \<open>
  The claim as it is written fails on a task that is completed: the second call stamps it
  with the current time.
\<close>

theorem toggle_twice_completedAt_counterexample:
  "map_option completedAt (getById (fst (toggleComplete ''2024-02-12T09:00:01.000Z'' ''a''
        (fst (toggleComplete ''2024-02-12T09:00:00.000Z'' ''a'' done_store)))) ''a'')
     \<noteq> map_option completedAt (getById done_store ''a'')"
proof -
  have h: "getById done_store ''a'' = Some done_task"
    by (simp add: getById_def done_store_def load_def done_task_def example_task_def)
  have c: "completed done_task" "completedAt done_task = Some ''2024-02-10T08:00:00.000Z''"
    by (simp_all add: done_task_def)
  from two_toggles_get [OF h, of "''2024-02-12T09:00:01.000Z''" "''2024-02-12T09:00:00.000Z''"] h c
  show ?thesis by simp
qed

subsection \<open>Identifiers and creation times along a run\<close>

lemma stamps_update_same:
  "k < length ts \<Longrightarrow> task_id y = task_id (ts ! k) \<Longrightarrow> createdAt y = createdAt (ts ! k)
   \<Longrightarrow> stamps (ts[k := y]) = stamps ts"
  by (simp add: stamps_def map_update list_update_same_conv)

lemma spread_keeps:
  "u_id u = None \<Longrightarrow> u_createdAt u = None
   \<Longrightarrow> task_id (spread t u) = task_id t \<and> createdAt (spread t u) = createdAt t"
  by (simp add: spread_def ov_def)

lemma flip_keeps: "task_id (flip now t) = task_id t \<and> createdAt (flip now t) = createdAt t"
  by (simp add: flip_def Let_def)

lemma stamps_update_op:
  assumes "u_id u = None" "u_createdAt u = None"
  shows "stamps (load (fst (update i u s))) = stamps (load s)"
proof (cases "findIndex (\<lambda>t. task_id t = i) (load s)")
  case None
  then show ?thesis by (simp add: update_def)
next
  case (Some k)
  from findIndex_Some [OF Some] have "k < length (load s)" by simp
  then have "stamps ((load s)[k := spread (load s ! k) u]) = stamps (load s)"
    using spread_keeps [OF assms] by (intro stamps_update_same) simp_all
  then show ?thesis
    using Some by (simp add: update_def Let_def load_save)
qed

lemma stamps_toggle_op: "stamps (load (fst (toggleComplete now i s))) = stamps (load s)"
proof (cases "findIndex (\<lambda>t. task_id t = i) (load s)")
  case None
  then show ?thesis by (simp add: toggleComplete_def)
next
  case (Some k)
  from findIndex_Some [OF Some] have "k < length (load s)" by simp
  then have "stamps ((load s)[k := flip now (load s ! k)]) = stamps (load s)"
    using flip_keeps by (intro stamps_update_same) simp_all
  then show ?thesis
    using Some by (simp add: toggleComplete_def Let_def load_save)
qed

lemma stamps_delete_op:
  "stamps (load (fst (delete i s))) = filter (\<lambda>p. fst p \<noteq> i) (stamps (load s))"
  by (simp add: delete_def Let_def load_save stamps_def filter_map comp_def)

lemma stamps_add_op:
  "stamps (load (fst (add uuid now d s))) = stamps (load s) @ [(uuid, now)]"
  by (simp add: add_def Let_def load_save stamps_def new_task_def)

lemma ids_stamps: "ids ts = map fst (stamps ts)"
  by (simp add: ids_def stamps_def comp_def)

text \<open>One call: the stamps afterwards are those before, some removed, or one appended.\<close>

lemma stamps_apply_op:
  assumes "keeps_identity x"
  shows "stamps (load (apply_op x s)) = stamps (load s) @ new_stamps [x]
     \<or> (new_stamps [x] = [] \<and>
          (\<exists>i. stamps (load (apply_op x s)) = filter (\<lambda>p. fst p \<noteq> i) (stamps (load s))))"
proof (cases x)
  case (Add uuid now d)
  then show ?thesis by (simp add: stamps_add_op)
next
  case (Update i u)
  with assms show ?thesis by (simp add: stamps_update_op)
next
  case (Delete i)
  then show ?thesis using stamps_delete_op by auto
next
  case (Toggle now i)
  then show ?thesis by (simp add: stamps_toggle_op)
qed

lemma new_stamps_Cons: "new_stamps (x # xs) = new_stamps [x] @ new_stamps xs"
  by (cases x) simp_all

lemma new_stamps_append: "new_stamps (xs @ ys) = new_stamps xs @ new_stamps ys"
proof (induction xs)
  case Nil
  then show ?case by simp
next
  case (Cons x xs)
  then show ?case
    using new_stamps_Cons [of x "xs @ ys"] new_stamps_Cons [of x xs] by simp
qed

lemma run_append: "run (xs @ ys) s = run ys (run xs s)"
  by (induction xs arbitrary: s) simp_all

lemma stamps_apply_op_subset:
  assumes "keeps_identity x"
  shows "set (stamps (load (apply_op x s))) \<subseteq> set (stamps (load s)) \<union> set (new_stamps [x])"
  using stamps_apply_op [OF assms, of s] by auto

lemma stamps_run_subset:
  "list_all keeps_identity xs
   \<Longrightarrow> set (stamps (load (run xs s))) \<subseteq> set (stamps (load s)) \<union> set (new_stamps xs)"
proof (induction xs arbitrary: s)
  case Nil
  then show ?case by simp
next
  case (Cons x xs)
  from Cons.prems have k: "keeps_identity x" "list_all keeps_identity xs" by simp_all
  have "set (stamps (load (run xs (apply_op x s))))
      \<subseteq> set (stamps (load (apply_op x s))) \<union> set (new_stamps xs)"
    using Cons.IH [OF k(2)] .
  also have "\<dots> \<subseteq> (set (stamps (load s)) \<union> set (new_stamps [x])) \<union> set (new_stamps xs)"
    using stamps_apply_op_subset [OF k(1), of s] by blast
  finally show ?case
    using new_stamps_Cons [of x xs] by auto
qed

lemma distinct_apply_op:
  assumes "keeps_identity x" "distinct (map fst (stamps (load s) @ new_stamps [x]))"
  shows "distinct (map fst (stamps (load (apply_op x s))))"
  using stamps_apply_op [OF assms(1), of s] assms(2)
  by (auto simp: distinct_map_filter)

lemma distinct_run:
  "list_all keeps_identity xs \<Longrightarrow> distinct (map fst (stamps (load s) @ new_stamps xs))
   \<Longrightarrow> distinct (map fst (stamps (load (run xs s))))"
proof (induction xs arbitrary: s)
  case Nil
  then show ?case by simp
next
  case (Cons x xs)
  from Cons.prems(1) have k: "keeps_identity x" "list_all keeps_identity xs" by simp_all
  let ?s1 = "apply_op x s"
  have d: "distinct (map fst (stamps (load s)) @ map fst (new_stamps [x]) @ map fst (new_stamps xs))"
    using Cons.prems(2) new_stamps_Cons [of x xs] by simp
  have d1: "distinct (map fst (stamps (load ?s1)))"
    using d by (intro distinct_apply_op [OF k(1)]) auto
  have sub: "set (map fst (stamps (load ?s1)))
      \<subseteq> set (map fst (stamps (load s))) \<union> set (map fst (new_stamps [x]))"
    using stamps_apply_op_subset [OF k(1), of s] by (simp flip: set_append image_Un) blast
  from d have dx: "distinct (map fst (new_stamps xs))"
    and i1: "set (map fst (stamps (load s))) \<inter> set (map fst (new_stamps xs)) = {}"
    and i2: "set (map fst (new_stamps [x])) \<inter> set (map fst (new_stamps xs)) = {}"
    by auto
  from sub i1 i2
  have "set (map fst (stamps (load ?s1))) \<inter> set (map fst (new_stamps xs)) = {}"
    by blast
  with d1 dx have "distinct (map fst (stamps (load ?s1) @ new_stamps xs))"
    by simp
  from Cons.IH [OF k(2) this] show ?case by simp
qed

text \<open>
  C4 (as amended). Take a store whose identifiers are unique and any run of \<open>add\<close>,
  \<open>update\<close>, \<open>delete\<close> and \<open>toggleComplete\<close> calls in which no call of \<open>update\<close>
  passes an \<open>id\<close> or a \<open>createdAt\<close> property and every \<open>add\<close> is given an identifier
  that is new (no stored task and no other \<open>add\<close> of the run has it). Then the identifiers
  are unique after the run, and a task that is in the collection at any point of the run has
  the same \<open>createdAt\<close> at the end, if it is still there.
\<close>

theorem ids_unique_createdAt_fixed:
  assumes "list_all keeps_identity (xs @ ys)"
      and "distinct (ids (load s) @ new_ids (xs @ ys))"
  shows "distinct (ids (load (run (xs @ ys) s)))
     \<and> (\<forall>t \<in> set (load (run xs s)). \<forall>t' \<in> set (load (run (xs @ ys) s)).
            task_id t' = task_id t \<longrightarrow> createdAt t' = createdAt t)"
proof -
  let ?s1 = "run xs s"
  let ?s2 = "run (xs @ ys) s"
  have k: "list_all keeps_identity xs" "list_all keeps_identity ys"
    using assms(1) by simp_all
  have d: "distinct (map fst (stamps (load s)) @ map fst (new_stamps xs) @ map fst (new_stamps ys))"
    using assms(2) by (simp add: ids_stamps new_ids_def new_stamps_append)
  have uniq: "distinct (ids (load ?s2))"
    unfolding ids_stamps using assms
    by (intro distinct_run) (simp_all add: ids_stamps new_ids_def)
  have d1: "distinct (map fst (stamps (load ?s1)))"
    using d by (intro distinct_run [OF k(1)]) auto
  have sub1: "set (stamps (load ?s1)) \<subseteq> set (stamps (load s)) \<union> set (new_stamps xs)"
    using k(1) by (rule stamps_run_subset)
  have sub2: "set (stamps (load ?s2)) \<subseteq> set (stamps (load ?s1)) \<union> set (new_stamps ys)"
    unfolding run_append using k(2) by (rule stamps_run_subset)
  have fixed: "createdAt t' = createdAt t"
    if "t \<in> set (load ?s1)" "t' \<in> set (load ?s2)" "task_id t' = task_id t" for t t'
  proof -
    have a: "(task_id t, createdAt t) \<in> set (stamps (load ?s1))"
      using that(1) by (auto simp: stamps_def)
    have "(task_id t', createdAt t') \<in> set (stamps (load ?s2))"
      using that(2) by (auto simp: stamps_def)
    then have b: "(task_id t, createdAt t') \<in> set (stamps (load ?s2))"
      using that(3) by simp
    have "task_id t \<in> fst ` (set (stamps (load s)) \<union> set (new_stamps xs))"
      using a sub1 by force
    then have "task_id t \<notin> fst ` set (new_stamps ys)"
      using d by auto
    then have "(task_id t, createdAt t') \<notin> set (new_stamps ys)"
      by force
    with b sub2 have c: "(task_id t, createdAt t') \<in> set (stamps (load ?s1))"
      by blast
    from d1 a c show ?thesis
      by (meson eq_key_imp_eq_value)
  qed
  from uniq fixed show ?thesis by blast
qed

lemma run_first: "stamps (load (run first_ops empty_store)) = [(''a'', ''2024-02-01T09:00:00.000Z'')]"
  by code_simp

lemma run_later: "stamps (load (run (first_ops @ later_ops) empty_store))
   = [(''a'', ''2024-02-01T09:00:00.000Z''), (''b'', ''2024-02-03T09:00:00.000Z'')]"
  by code_simp

theorem ids_unique_createdAt_fixed_witness:
  "list_all keeps_identity (first_ops @ later_ops)
   \<and> distinct (ids (load empty_store) @ new_ids (first_ops @ later_ops))
   \<and> distinct (ids (load (run (first_ops @ later_ops) empty_store)))
   \<and> stamps (load (run first_ops empty_store)) = [(''a'', ''2024-02-01T09:00:00.000Z'')]
   \<and> stamps (load (run (first_ops @ later_ops) empty_store))
       = [(''a'', ''2024-02-01T09:00:00.000Z''), (''b'', ''2024-02-03T09:00:00.000Z'')]"
proof -
  have h1: "list_all keeps_identity (first_ops @ later_ops)"
    by code_simp
  have h2: "distinct (ids (load empty_store) @ new_ids (first_ops @ later_ops))"
    by code_simp
  from ids_unique_createdAt_fixed [OF h1 h2] h1 h2 run_first run_later show ?thesis
    by blast
qed

text \<open>
  The claim as it is written fails: \<open>update\<close> merges every property it is given, so a call
  that passes \<open>id\<close> and \<open>createdAt\<close> gives the second task the identifier of the first
  and a new creation time.
\<close>

theorem update_overwrites_identity_counterexample:
  "distinct (ids (load empty_store) @ new_ids clash_ops)
   \<and> stamps (load (run (take 2 clash_ops) empty_store))
       = [(''a'', ''2024-02-01T09:00:00.000Z''), (''b'', ''2024-02-03T09:00:00.000Z'')]
   \<and> stamps (load (run clash_ops empty_store))
       = [(''a'', ''2024-02-01T09:00:00.000Z''), (''a'', ''2024-02-04T09:00:00.000Z'')]
   \<and> \<not> distinct (ids (load (run clash_ops empty_store)))"
  by code_simp

section \<open>Facts about sorting\<close>

lemma insert_sorted_insort_key:
  "(\<And>y. y \<in> set ys \<Longrightarrow> (sortCompare cmp x y \<le> 0) = (f x \<le> f y))
   \<Longrightarrow> insert_sorted cmp x ys = insort_key f x ys"
  by (induction ys) simp_all

lemma array_sort_sort_key:
  fixes f :: "'a \<Rightarrow> 'k::linorder"
  assumes "\<And>x y. x \<in> set xs \<Longrightarrow> y \<in> set xs \<Longrightarrow> (sortCompare cmp x y \<le> 0) = (f x \<le> f y)"
  shows "array_sort cmp xs = sort_key f xs"
  using assms
proof (induction xs)
  case Nil
  then show ?case by simp
next
  case (Cons x xs)
  have ih: "array_sort cmp xs = sort_key f xs"
    using Cons.prems by (intro Cons.IH) simp_all
  have "insert_sorted cmp x (sort_key f xs) = insort_key f x (sort_key f xs)"
    using Cons.prems by (intro insert_sorted_insort_key) simp_all
  with ih show ?case by simp
qed

text \<open>
  The choice of the sorting algorithm does not matter for a comparator that orders by a
  key: every stable, sorted permutation of the input is the array that \<open>array_sort\<close>
  returns.
\<close>

lemma array_sort_determined:
  fixes f :: "'a \<Rightarrow> 'k::linorder"
  assumes "\<And>x y. x \<in> set xs \<Longrightarrow> y \<in> set xs \<Longrightarrow> (sortCompare cmp x y \<le> 0) = (f x \<le> f y)"
      and "mset ys = mset xs"
      and "\<And>k. k \<in> set ys \<Longrightarrow> filter (\<lambda>x. f k = f x) ys = filter (\<lambda>x. f k = f x) xs"
      and "sorted (map f ys)"
  shows "array_sort cmp xs = ys"
proof -
  have "array_sort cmp xs = sort_key f xs"
    using assms(1) by (rule array_sort_sort_key)
  also have "\<dots> = ys"
    using assms(2,3,4) by (rule properties_for_sort_key)
  finally show ?thesis .
qed

lemma priority_cmp:
  assumes "known_priority a" "known_priority b"
  shows "(sortCompare (comparison env ''priority'') a b \<le> 0) = (priority_rank a \<le> priority_rank b)"
  using assms
  by (auto simp: known_priority_def priority_rank_def sortCompare_def comparison_def num_sub_def)

lemma due_cmp:
  assumes "due_date_ok env a" "due_date_ok env b"
  shows "(sortCompare (comparison env ''due'') a b \<le> 0) = (due_key env a \<le> due_key env b)"
  using assms
  by (auto simp: due_date_ok_def due_key_def due_value_def sortCompare_def comparison_def
      num_sub_def less_eq_prod_def split: if_splits)

lemma sort_tasks_heap:
  assumes "tasks < length h"
  shows "sort_tasks env tasks sortBy reverse h
     = (h @ [if reverse then rev (array_sort (comparison env sortBy) (h ! tasks))
             else array_sort (comparison env sortBy) (h ! tasks)], length h)"
  by (simp add: sort_tasks_def alloc_def sort_in_place_def reverse_in_place_def Let_def)

lemma sort_priority_sort_key:
  assumes "list_all known_priority xs"
  shows "array_sort (comparison env ''priority'') xs = sort_key priority_rank xs"
  using assms by (intro array_sort_sort_key priority_cmp) (simp_all add: list_all_iff)

lemma sort_due_sort_key:
  assumes "list_all (due_date_ok env) xs"
  shows "array_sort (comparison env ''due'') xs = sort_key (due_key env) xs"
  using assms by (intro array_sort_sort_key due_cmp) (simp_all add: list_all_iff)

lemma filter_priority_rank:
  "filter (\<lambda>t. priority t = p) ys
   = filter (\<lambda>t. priority t = p)
       (filter (\<lambda>t. priority_rank t = (case priorityOrder p of Some n \<Rightarrow> n | None \<Rightarrow> 4)) ys)"
  by (induction ys) (auto simp: priority_rank_def)

lemma sort_key_stable_priority:
  "filter (\<lambda>t. priority t = p) (sort_key priority_rank xs) = filter (\<lambda>t. priority t = p) xs"
proof -
  let ?k = "case priorityOrder p of Some n \<Rightarrow> n | None \<Rightarrow> 4"
  have "filter (\<lambda>t. priority t = p) (sort_key priority_rank xs)
      = filter (\<lambda>t. priority t = p) (filter (\<lambda>t. priority_rank t = ?k) (sort_key priority_rank xs))"
    by (rule filter_priority_rank)
  also have "\<dots> = filter (\<lambda>t. priority t = p) (filter (\<lambda>t. priority_rank t = ?k) xs)"
    by (simp only: sort_key_stable)
  also have "\<dots> = filter (\<lambda>t. priority t = p) xs"
    by (rule filter_priority_rank [symmetric])
  finally show ?thesis .
qed

subsection \<open>By priority\<close>

lemma sorted_const: "(\<And>x. x \<in> set ys \<Longrightarrow> f x = (c::int)) \<Longrightarrow> sorted (map f ys)"
  by (induction ys) auto

lemma rank_by_priority:
  "x \<in> set (by_priority p xs) \<Longrightarrow> priority_rank x = (case priorityOrder p of Some n \<Rightarrow> n | None \<Rightarrow> 4)"
  by (auto simp: by_priority_def priority_rank_def)

lemma blocks_sorted:
  "sorted (map priority_rank
     (by_priority ''urgent'' xs @ by_priority ''high'' xs @ by_priority ''medium'' xs
        @ by_priority ''low'' xs))"
proof -
  have u: "priority_rank x = 0" if "x \<in> set (by_priority ''urgent'' xs)" for x
    using rank_by_priority [OF that] by (simp add: priorityOrder_def)
  have h: "priority_rank x = 1" if "x \<in> set (by_priority ''high'' xs)" for x
    using rank_by_priority [OF that] by (simp add: priorityOrder_def)
  have m: "priority_rank x = 2" if "x \<in> set (by_priority ''medium'' xs)" for x
    using rank_by_priority [OF that] by (simp add: priorityOrder_def)
  have l: "priority_rank x = 3" if "x \<in> set (by_priority ''low'' xs)" for x
    using rank_by_priority [OF that] by (simp add: priorityOrder_def)
  have "sorted (map priority_rank (by_priority ''urgent'' xs))"
       "sorted (map priority_rank (by_priority ''high'' xs))"
       "sorted (map priority_rank (by_priority ''medium'' xs))"
       "sorted (map priority_rank (by_priority ''low'' xs))"
    using u h m l by (auto intro: sorted_const)
  then show ?thesis
    using u h m l by (auto simp: sorted_append)
qed

lemma blocks_mset:
  "list_all known_priority xs \<Longrightarrow>
   mset (by_priority ''urgent'' xs @ by_priority ''high'' xs @ by_priority ''medium'' xs
        @ by_priority ''low'' xs) = mset xs"
  by (induction xs)
     (auto simp: by_priority_def known_priority_def priorityOrder_def split: if_splits)

lemma filter_rank_block:
  "filter (\<lambda>x. c = priority_rank x) (by_priority p xs)
   = (if c = (case priorityOrder p of Some n \<Rightarrow> n | None \<Rightarrow> 4) then by_priority p xs else [])"
  by (induction xs) (auto simp: by_priority_def priority_rank_def)

lemma rank_cases:
  "known_priority x \<Longrightarrow>
   (priority x = ''urgent'' \<and> priority_rank x = 0) \<or> (priority x = ''high'' \<and> priority_rank x = 1)
   \<or> (priority x = ''medium'' \<and> priority_rank x = 2) \<or> (priority x = ''low'' \<and> priority_rank x = 3)"
  by (auto simp: known_priority_def priority_rank_def priorityOrder_def split: if_splits)

lemma filter_rank_known:
  assumes "list_all known_priority xs"
  shows "filter (\<lambda>x. c = priority_rank x) xs
     = (if c = 0 then by_priority ''urgent'' xs else if c = 1 then by_priority ''high'' xs
        else if c = 2 then by_priority ''medium'' xs else if c = 3 then by_priority ''low'' xs
        else [])"
  using assms
proof (induction xs)
  case Nil
  then show ?case by (simp add: by_priority_def)
next
  case (Cons x xs)
  from Cons.prems have k: "known_priority x" and ks: "list_all known_priority xs"
    by simp_all
  note ih = Cons.IH [OF ks]
  from rank_cases [OF k] show ?case
    using ih by (auto simp: by_priority_def split: if_splits)
qed

lemma blocks_filter:
  assumes "list_all known_priority xs"
  shows "filter (\<lambda>x. c = priority_rank x)
     (by_priority ''urgent'' xs @ by_priority ''high'' xs @ by_priority ''medium'' xs
        @ by_priority ''low'' xs) = filter (\<lambda>x. c = priority_rank x) xs"
  unfolding filter_rank_known [OF assms] filter_append filter_rank_block
  by (simp add: priorityOrder_def)

lemma sort_key_blocks:
  assumes "list_all known_priority xs"
  shows "sort_key priority_rank xs
     = by_priority ''urgent'' xs @ by_priority ''high'' xs @ by_priority ''medium'' xs
        @ by_priority ''low'' xs"
  by (rule properties_for_sort_key)
     (simp_all only: blocks_mset [OF assms] blocks_filter [OF assms] blocks_sorted)

lemma mset_insert_sorted: "mset (insert_sorted cmp x ys) = add_mset x (mset ys)"
  by (induction ys) simp_all

lemma mset_array_sort: "mset (array_sort cmp xs) = mset xs"
  by (induction xs) (simp_all add: mset_insert_sorted)

text \<open>
  C6 (as amended). \<open>sort(tasks, 'priority')\<close> returns a new array that is a permutation
  of the input, and leaves the input array, and every other array, as it was, whatever the
  tasks are. When the priority of every task is one of the four levels, the new array holds
  the urgent tasks, then the high, the medium and the low ones, each group in its input
  order (the sort is stable and the result is ordered by rank).
\<close>

theorem sort_priority_stable_copy:
  assumes "tasks < length h"
      and "sort_tasks env tasks ''priority'' False h = (h', r)"
  shows "h' ! tasks = h ! tasks \<and> r \<noteq> tasks \<and> take (length h) h' = h
     \<and> mset (h' ! r) = mset (h ! tasks)
     \<and> (list_all known_priority (h ! tasks) \<longrightarrow>
          h' ! r = by_priority ''urgent'' (h ! tasks) @ by_priority ''high'' (h ! tasks)
                @ by_priority ''medium'' (h ! tasks) @ by_priority ''low'' (h ! tasks)
          \<and> sorted (map priority_rank (h' ! r))
          \<and> (\<forall>p. by_priority p (h' ! r) = by_priority p (h ! tasks)))"
proof -
  let ?xs = "h ! tasks"
  let ?ys = "array_sort (comparison env ''priority'') ?xs"
  from assms(2) have h': "h' = h @ [?ys]" and r: "r = length h"
    by (simp_all add: sort_tasks_heap [OF assms(1)])
  have at_r: "h' ! r = ?ys"
    by (simp add: h' r)
  have 1: "h' ! tasks = ?xs"
    using assms(1) by (simp add: h' nth_append)
  have 2: "r \<noteq> tasks"
    using assms(1) r by simp
  have 3: "take (length h) h' = h"
    by (simp add: h')
  have 4: "mset (h' ! r) = mset ?xs"
    unfolding at_r by (rule mset_array_sort)
  have 5: "h' ! r = by_priority ''urgent'' ?xs @ by_priority ''high'' ?xs
                @ by_priority ''medium'' ?xs @ by_priority ''low'' ?xs
          \<and> sorted (map priority_rank (h' ! r))
          \<and> (\<forall>p. by_priority p (h' ! r) = by_priority p ?xs)"
    if known: "list_all known_priority ?xs"
  proof -
    have res: "h' ! r = sort_key priority_rank ?xs"
      unfolding at_r using known by (rule sort_priority_sort_key)
    have a: "h' ! r = by_priority ''urgent'' ?xs @ by_priority ''high'' ?xs
                @ by_priority ''medium'' ?xs @ by_priority ''low'' ?xs"
      unfolding res using known by (rule sort_key_blocks)
    have b: "sorted (map priority_rank (h' ! r))"
      by (simp add: res)
    have c: "by_priority p (h' ! r) = by_priority p ?xs" for p
      unfolding res by_priority_def by (rule sort_key_stable_priority)
    from a b c show ?thesis
      by blast
  qed
  from 1 2 3 4 5 show ?thesis
    by blast
qed

theorem sort_priority_stable_copy_witness:
  "0 < length [example_tasks]
   \<and> list_all known_priority ([example_tasks] ! 0)
   \<and> fst (sort_tasks example_env 0 ''priority'' False [example_tasks]) ! 0 = example_tasks
   \<and> snd (sort_tasks example_env 0 ''priority'' False [example_tasks]) = 1
   \<and> map task_id (fst (sort_tasks example_env 0 ''priority'' False [example_tasks]) ! 1)
       = [''2'', ''4'', ''3'', ''1'', ''5'']
   \<and> sorted (map priority_rank
        (fst (sort_tasks example_env 0 ''priority'' False [example_tasks])
          ! snd (sort_tasks example_env 0 ''priority'' False [example_tasks])))"
proof -
  have h1: "0 < length [example_tasks]"
    by simp
  have h2: "list_all known_priority ([example_tasks] ! 0)"
    by code_simp
  have h3: "sort_tasks example_env 0 ''priority'' False [example_tasks]
      = (fst (sort_tasks example_env 0 ''priority'' False [example_tasks]),
         snd (sort_tasks example_env 0 ''priority'' False [example_tasks]))"
    by simp
  have e1: "snd (sort_tasks example_env 0 ''priority'' False [example_tasks]) = 1"
    by code_simp
  have e2: "map task_id (fst (sort_tasks example_env 0 ''priority'' False [example_tasks]) ! 1)
       = [''2'', ''4'', ''3'', ''1'', ''5'']"
    by code_simp
  have e0: "fst (sort_tasks example_env 0 ''priority'' False [example_tasks]) ! 0 = example_tasks"
    by code_simp
  from sort_priority_stable_copy [OF h1 h3] h2
  have s: "sorted (map priority_rank
        (fst (sort_tasks example_env 0 ''priority'' False [example_tasks])
          ! snd (sort_tasks example_env 0 ''priority'' False [example_tasks])))"
    by blast
  from h1 h2 e0 e1 e2 s show ?thesis
    by blast
qed

text \<open>
  The claim as it is written fails on a task whose priority is none of the four levels,
  which \<open>add\<close> and \<open>update\<close> store as they get it: \<open>priorityOrder\<close> has no entry for
  it, the comparator returns \<open>NaN\<close> against either neighbour, and the array stays as it
  is, with the low task before the urgent one.
\<close>

theorem sort_priority_unknown_counterexample:
  "map priority (fst (sort_tasks example_env 0 ''priority'' False [bogus_tasks])
        ! snd (sort_tasks example_env 0 ''priority'' False [bogus_tasks]))
     = [''low'', ''bogus'', ''urgent'']"
  by code_simp

subsection \<open>By due date\<close>

lemma due_key_no_due: "(due_key env t = (True, 0)) = no_due t"
  by (simp add: due_key_def)

lemma due_key_le:
  "has_due a \<Longrightarrow> has_due b \<Longrightarrow> (due_key env a \<le> due_key env b) = (due_value env a \<le> due_value env b)"
  by (simp add: due_key_def has_due_def less_eq_prod_def)

lemma no_due_le: "no_due a \<Longrightarrow> due_key env a \<le> due_key env b \<Longrightarrow> no_due b"
  by (auto simp: due_key_def less_eq_prod_def split: if_splits)

lemma sorted_due_split:
  "sorted (map (due_key env) ys) \<Longrightarrow> ys = filter has_due ys @ filter no_due ys"
proof (induction ys)
  case Nil
  then show ?case by simp
next
  case (Cons y ys)
  from Cons.prems have s: "sorted (map (due_key env) ys)"
    and le: "\<And>z. z \<in> set ys \<Longrightarrow> due_key env y \<le> due_key env z"
    by simp_all
  show ?case
  proof (cases "no_due y")
    case True
    then have "\<And>z. z \<in> set ys \<Longrightarrow> no_due z"
      using le no_due_le by blast
    then have "filter has_due ys = []" "filter no_due ys = ys"
      by (simp_all add: has_due_def filter_empty_conv)
    moreover have "\<not> has_due y"
      using True by (simp add: has_due_def)
    ultimately show ?thesis
      using True by simp
  next
    case False
    then have "has_due y"
      by (simp add: has_due_def)
    with False Cons.IH [OF s] show ?thesis
      by simp
  qed
qed

lemma sorted_due_values:
  "sorted (map (due_key env) ys) \<Longrightarrow> sorted (map (due_value env) (filter has_due ys))"
proof (induction ys)
  case Nil
  then show ?case by simp
next
  case (Cons y ys)
  from Cons.prems have s: "sorted (map (due_key env) ys)"
    and le: "\<And>z. z \<in> set ys \<Longrightarrow> due_key env y \<le> due_key env z"
    by simp_all
  show ?case
  proof (cases "has_due y")
    case True
    have "due_value env y \<le> due_value env z" if "z \<in> set ys" "has_due z" for z
      using le [OF that(1)] due_key_le [OF True that(2)] by simp
    with True Cons.IH [OF s] show ?thesis
      by auto
  next
    case False
    with Cons.IH [OF s] show ?thesis
      by simp
  qed
qed

text \<open>
  C2 (as amended). For an array of tasks whose due dates, where present, are valid dates:
  sorting by \<open>'due'\<close> orders the tasks with a due date by ascending date and puts the
  tasks without one after them, in their input order (two tasks without a due date compare
  equal); with \<open>reverse\<close> the result is that array reversed, so the tasks without a due
  date come first and the dates descend.
\<close>

theorem sort_due_order:
  assumes "tasks < length h"
      and "list_all (due_date_ok env) (h ! tasks)"
      and "sort_tasks env tasks ''due'' reverse h = (h', r)"
      and "ascending = array_sort (comparison env ''due'') (h ! tasks)"
  shows "h' ! r = (if reverse then rev ascending else ascending)
     \<and> ascending = filter has_due ascending @ filter no_due (h ! tasks)
     \<and> sorted (map (due_value env) (filter has_due ascending))
     \<and> mset ascending = mset (h ! tasks)
     \<and> (reverse \<longrightarrow> h' ! r = rev (filter no_due (h ! tasks)) @ rev (filter has_due ascending))
     \<and> (no_due a \<and> no_due b \<longrightarrow> comparison env ''due'' a b = Some 0)"
proof -
  let ?xs = "h ! tasks"
  have asc: "ascending = sort_key (due_key env) ?xs"
    unfolding assms(4) using assms(2) by (rule sort_due_sort_key)
  have s: "sorted (map (due_key env) ascending)"
    by (simp add: asc)
  have 1: "h' ! r = (if reverse then rev ascending else ascending)"
    using assms(3) by (simp add: sort_tasks_heap [OF assms(1)] assms(4) split: if_splits) auto
  have "filter (\<lambda>t. due_key env t = (True, 0)) ascending = filter (\<lambda>t. due_key env t = (True, 0)) ?xs"
    unfolding asc by (rule sort_key_stable)
  then have undated: "filter no_due ascending = filter no_due ?xs"
    by (simp add: due_key_no_due)
  have 2: "ascending = filter has_due ascending @ filter no_due ?xs"
    using sorted_due_split [OF s] undated by simp
  have 3: "sorted (map (due_value env) (filter has_due ascending))"
    using s by (rule sorted_due_values)
  have 4: "mset ascending = mset ?xs"
    by (simp add: asc)
  have 5: "h' ! r = rev (filter no_due ?xs) @ rev (filter has_due ascending)" if reverse
  proof -
    have "rev ascending = rev (filter has_due ascending @ filter no_due ?xs)"
      using 2 by simp
    then show ?thesis
      using 1 that by simp
  qed
  have 6: "comparison env ''due'' a b = Some 0" if "no_due a \<and> no_due b"
    using that by (simp add: comparison_def)
  from 1 2 3 4 5 6 show ?thesis
    by blast
qed

theorem sort_due_order_witness:
  "0 < length [example_tasks]
   \<and> list_all (due_date_ok example_env) ([example_tasks] ! 0)
   \<and> map task_id (array_sort (comparison example_env ''due'') example_tasks)
       = [''3'', ''4'', ''1'', ''2'', ''5'']
   \<and> map task_id (fst (sort_tasks example_env 0 ''due'' True [example_tasks])
        ! snd (sort_tasks example_env 0 ''due'' True [example_tasks]))
       = [''5'', ''2'', ''1'', ''4'', ''3'']
   \<and> sorted (map (due_value example_env)
        (filter has_due (array_sort (comparison example_env ''due'') example_tasks)))"
proof -
  have h1: "0 < length [example_tasks]"
    by simp
  have h2: "list_all (due_date_ok example_env) ([example_tasks] ! 0)"
    by code_simp
  have h3: "sort_tasks example_env 0 ''due'' True [example_tasks]
      = (fst (sort_tasks example_env 0 ''due'' True [example_tasks]),
         snd (sort_tasks example_env 0 ''due'' True [example_tasks]))"
    by simp
  have h4: "array_sort (comparison example_env ''due'') example_tasks
      = array_sort (comparison example_env ''due'') ([example_tasks] ! 0)"
    by simp
  have e1: "map task_id (array_sort (comparison example_env ''due'') example_tasks)
       = [''3'', ''4'', ''1'', ''2'', ''5'']"
    by code_simp
  have e2: "map task_id (fst (sort_tasks example_env 0 ''due'' True [example_tasks])
        ! snd (sort_tasks example_env 0 ''due'' True [example_tasks]))
       = [''5'', ''2'', ''1'', ''4'', ''3'']"
    by code_simp
  from sort_due_order [OF h1 h2 h3 h4]
  have s: "sorted (map (due_value example_env)
        (filter has_due (array_sort (comparison example_env ''due'') example_tasks)))"
    by blast
  from h1 h2 e1 e2 s show ?thesis
    by blast
qed

text \<open>
  The claim as it is written fails for \<open>reverse = true\<close>: the whole sorted array is
  reversed, and the task without a due date comes before the one with a due date.
\<close>

theorem sort_due_reverse_counterexample:
  "map dueDate (fst (sort_tasks example_env 0 ''due'' True [due_pair])
        ! snd (sort_tasks example_env 0 ''due'' True [due_pair]))
     = [None, Some ''2024-03-01'']"
  by code_simp

section \<open>Facts about the prompts\<close>






lemma remdups_snoc: "remdups (ts @ [c]) = filter (\<lambda>i. i \<noteq> c) (remdups ts) @ [c]"
  by (induction ts) auto

lemma fold_toggle_snoc: "fold toggle (ts @ [c]) sel = toggle c (fold toggle ts sel)"
  by simp

lemma set_most_recently_on:
  "(c \<in> set (most_recently_on ts)) = odd (count_list ts c)"
proof -
  have "odd (count_list ts c) \<Longrightarrow> c \<in> set ts"
    by (metis count_notin even_zero)
  then show ?thesis
    by (auto simp: most_recently_on_def)
qed

lemma most_recently_on_snoc:
  "most_recently_on (ts @ [c]) = toggle c (most_recently_on ts)"
proof (cases "odd (count_list ts c)")
  case True
  have "most_recently_on (ts @ [c])
      = filter (\<lambda>i. odd (count_list (ts @ [c]) i)) (filter (\<lambda>i. i \<noteq> c) (remdups ts))"
    using True by (simp add: most_recently_on_def remdups_snoc)
  also have "\<dots> = filter (\<lambda>i. i \<noteq> c) (filter (\<lambda>i. odd (count_list ts i)) (remdups ts))"
    by (simp add: conj_commute cong: conj_cong)
  finally show ?thesis
    using True by (simp add: toggle_def set_most_recently_on) (simp add: most_recently_on_def)
next
  case False
  have "most_recently_on (ts @ [c])
      = filter (\<lambda>i. odd (count_list (ts @ [c]) i)) (filter (\<lambda>i. i \<noteq> c) (remdups ts)) @ [c]"
    using False by (simp add: most_recently_on_def remdups_snoc)
  also have "filter (\<lambda>i. odd (count_list (ts @ [c]) i)) (filter (\<lambda>i. i \<noteq> c) (remdups ts))
      = filter (\<lambda>i. i \<noteq> c) (filter (\<lambda>i. odd (count_list ts i)) (remdups ts))"
    by (simp add: conj_commute cong: conj_cong)
  also have "\<dots> = filter (\<lambda>i. odd (count_list ts i)) (remdups ts)"
    unfolding filter_id_conv using False by auto
  finally show ?thesis
    using False by (simp add: toggle_def set_most_recently_on) (simp add: most_recently_on_def)
qed

lemma fold_toggle_most_recently_on: "fold toggle ts [] = most_recently_on ts"
proof (induction ts rule: rev_induct)
  case Nil
  then show ?case by (simp add: most_recently_on_def)
next
  case (snoc c ts)
  then show ?case by (simp add: most_recently_on_snoc)
qed

lemma multiSelect_keys_trace:
  "multiSelect_keys options (sel, cur) es = (Some r, rest) \<Longrightarrow> accepted r
   \<Longrightarrow> indexes r = fold toggle (toggle_trace options cur es) sel"
proof (induction es arbitrary: sel cur)
  case Nil
  then show ?case by simp
next
  case (Cons e es)
  show ?case
  proof (cases "key e")
    case None
    with Cons.prems have "multiSelect_keys options (sel, cur) es = (Some r, rest)"
      by (simp add: multiSelect_onKey_def)
    from Cons.IH [OF this Cons.prems(2)] None show ?thesis by simp
  next
    case (Some name)
    consider (up) "name = ''up''" | (down) "name \<noteq> ''up''" "name = ''down''"
      | (space) "name \<noteq> ''up''" "name \<noteq> ''down''" "ch e = Some '' ''"
      | (ret) "name \<noteq> ''up''" "name \<noteq> ''down''" "ch e \<noteq> Some '' ''" "name = ''return''"
      | (esc) "name \<noteq> ''up''" "name \<noteq> ''down''" "ch e \<noteq> Some '' ''" "name \<noteq> ''return''"
          "name = ''escape''"
      | (other) "name \<noteq> ''up''" "name \<noteq> ''down''" "ch e \<noteq> Some '' ''" "name \<noteq> ''return''"
          "name \<noteq> ''escape''"
      by blast
    then show ?thesis
    proof cases
      case up
      with Some Cons.prems(1)
      have "multiSelect_keys options (sel, max 0 (cur - 1)) es = (Some r, rest)"
        by (simp add: multiSelect_onKey_def)
      from Cons.IH [OF this Cons.prems(2)] Some up show ?thesis by simp
    next
      case down
      with Some Cons.prems(1)
      have "multiSelect_keys options (sel, min (int (length options) - 1) (cur + 1)) es
          = (Some r, rest)"
        by (simp add: multiSelect_onKey_def)
      from Cons.IH [OF this Cons.prems(2)] Some down show ?thesis by simp
    next
      case space
      with Some Cons.prems(1)
      have "multiSelect_keys options (toggle cur sel, cur) es = (Some r, rest)"
        by (simp add: multiSelect_onKey_def)
      from Cons.IH [OF this Cons.prems(2)] Some space show ?thesis by simp
    next
      case ret
      with Some Cons.prems(1) have "r = \<lparr>indexes = sel, accepted = True\<rparr>"
        by (simp add: multiSelect_onKey_def)
      with Some ret show ?thesis by simp
    next
      case esc
      with Some Cons.prems(1) have "r = \<lparr>indexes = [], accepted = False\<rparr>"
        by (simp add: multiSelect_onKey_def)
      with Cons.prems(2) show ?thesis by simp
    next
      case other
      with Some Cons.prems(1)
      have "multiSelect_keys options (sel, cur) es = (Some r, rest)"
        by (simp add: multiSelect_onKey_def)
      from Cons.IH [OF this Cons.prems(2)] Some other show ?thesis by simp
    qed
  qed
qed

text \<open>
  C10. On a terminal, for every run of key events that the multi-select prompt ends with
  the return key, the indexes it resolves with are the options that are switched on, in the
  order in which they were most recently switched on, which is not the ascending order of
  the indexes: down, space, up, space, return resolves with the indexes 1, 0.
\<close>

theorem multiSelect_insertion_order:
  assumes "isTTY s"
      and "multiSelect options s = (Some r, s')"
      and "accepted r"
  shows "indexes r = most_recently_on (toggle_trace options 0 (events s))
     \<and> multiSelect [''A'', ''B'', ''C''] (terminal [down, space, up, space, return_key])
         = (Some \<lparr>indexes = [1, 0], accepted = True\<rparr>, terminal [])"
proof -
  have example: "multiSelect [''A'', ''B'', ''C''] (terminal [down, space, up, space, return_key])
         = (Some \<lparr>indexes = [1, 0], accepted = True\<rparr>, terminal [])"
    by code_simp
  from assms(1,2) obtain rest where
    "multiSelect_keys options ([], 0) (events s) = (Some r, rest)"
    by (auto simp: multiSelect_def isInteractive_def setRawMode_def
        split: prod.splits option.splits)
  from multiSelect_keys_trace [OF this assms(3)] example show ?thesis
    by (simp add: fold_toggle_most_recently_on)
qed

theorem multiSelect_insertion_order_witness:
  "isTTY (terminal [down, space, up, space, return_key])
   \<and> multiSelect [''A'', ''B'', ''C''] (terminal [down, space, up, space, return_key])
       = (Some \<lparr>indexes = [1, 0], accepted = True\<rparr>, terminal [])
   \<and> accepted \<lparr>indexes = [1, 0], accepted = True\<rparr>
   \<and> most_recently_on (toggle_trace [''A'', ''B'', ''C''] 0
         (events (terminal [down, space, up, space, return_key]))) = [1, 0]
   \<and> multiSelect [''A'', ''B'', ''C'']
         (terminal [space, down, space, up, space, space, return_key])
       = (Some \<lparr>indexes = [1, 0], accepted = True\<rparr>, terminal [])"
proof -
  have h1: "isTTY (terminal [down, space, up, space, return_key])"
    by (simp add: terminal_def)
  have h2: "multiSelect [''A'', ''B'', ''C''] (terminal [down, space, up, space, return_key])
       = (Some \<lparr>indexes = [1, 0], accepted = True\<rparr>, terminal [])"
    by code_simp
  have h3: "accepted \<lparr>indexes = [1, 0], accepted = True\<rparr>"
    by simp
  have e: "multiSelect [''A'', ''B'', ''C'']
         (terminal [space, down, space, up, space, space, return_key])
       = (Some \<lparr>indexes = [1, 0], accepted = True\<rparr>, terminal [])"
    by code_simp
  from multiSelect_insertion_order [OF h1 h2 h3]
  have "most_recently_on (toggle_trace [''A'', ''B'', ''C''] 0
         (events (terminal [down, space, up, space, return_key]))) = [1, 0]"
    by simp
  with h1 h2 h3 e show ?thesis
    by blast
qed

text \<open>
  The three prompts that offer a choice return their default at once when the input stream
  is not a terminal, and leave the stream as it is.
\<close>

lemma guarded_prompts_non_interactive:
  "\<not> isTTY s \<Longrightarrow>
     showMenu options s = (Some \<lparr>index = 0, ok = True\<rparr>, s)
   \<and> multiSelect options s = (Some \<lparr>indexes = [0], accepted = True\<rparr>, s)
   \<and> confirm opts s = (Some \<lparr>index = 0, ok = True\<rparr>, s)"
  by (simp add: showMenu_def multiSelect_def confirm_def isInteractive_def)

text \<open>
  C1. \<open>waitForKey\<close> on an input stream that is not a terminal: with no event to come it
  does not resolve, and with events to come it takes the first one. The claim asks for an
  immediate result that consumes no event, which is what \<open>showMenu\<close>, \<open>multiSelect\<close>
  and \<open>confirm\<close> do.
\<close>

theorem waitForKey_ignores_isInteractive:
  "waitForKey (piped []) = (None, piped [])
   \<and> waitForKey (piped [return_key, down]) = (Some (), piped [down])"
  by code_simp

section \<open>Facts about the statistics\<close>

lemma getStats_counts:
  "st_completed (getStats s) + st_pending (getStats s) = st_total (getStats s)
   \<and> st_total (getStats s) = length (load s)
   \<and> st_completed (getStats s) = length (filter completed (load s))
   \<and> st_pending (getStats s) = length (filter (\<lambda>t. \<not> completed t) (load s))"
proof -
  have "length (filter completed (load s)) \<le> length (load s)"
    by (rule length_filter_le)
  moreover have "length (load s) - length (filter completed (load s))
      = length (filter (\<lambda>t. \<not> completed t) (load s))"
    using length_filter_split [of completed "load s"] by simp
  moreover note length_filter_split [of completed "load s"]
  ultimately show ?thesis
    by (simp add: getStats_def Let_def)
qed

lemma getStats_rate_empty:
  "load s = [] \<Longrightarrow> st_completionRate (getStats s) = 0"
  by (simp add: getStats_def Let_def completionRate_def)

lemma double_23_40: "js_div 23 40 = 2589569785738035 / 2 ^ 52"
  by code_simp

lemma double_23_40_100: "js_mul (2589569785738035 / 2 ^ 52) 100 = 8092405580431359 / 2 ^ 47"
  by code_simp

text \<open>
  C7. \<open>getStats\<close> on forty tasks of which twenty-three are completed: the counts are 40,
  23 and 17, and the completion rate is 57, while \<open>100 * 23 / 40\<close> is 57.5 and rounds to
  58. The quotient \<open>23 / 40\<close> is not a double; the nearest one is below it, and its
  product with 100 rounds to the double just below 57.5.
\<close>

theorem getStats_rate_23_of_40:
  "st_total (getStats forty_tasks) = 40
   \<and> st_completed (getStats forty_tasks) = 23
   \<and> st_pending (getStats forty_tasks) = 17
   \<and> st_completionRate (getStats forty_tasks) = 57
   \<and> Math_round (100 * 23 / 40) = 58"
  by code_simp

end
